theory Spec2Isabelle
  imports Main
begin

section \<open>The Flow Execution Engine\<close>

text \<open>
  The engine's code (graph model, resolver, node executor, flow runner, batch scheduler)
  is not among the repository files at hand; only the change log that mentions it is.
  Its definitions below follow the specification, section by section, and each says so.
\<close>

subsection \<open>Graph Model\<close>

type_synonym name = string

text \<open>
  Modelled from the spec: the values that flow between nodes (the engine's value type is
  missing). \<open>VNone\<close> is the \<open>None\<close> that failed and bypassed nodes produce.
\<close>

datatype val = VNone | VInt int | VStr string

text \<open>
  Modelled from the spec: a reference expression \<open>${source.field}\<close> names a flow input or
  another node's output (section 3, section 6).
\<close>

datatype source = FlowInput name | NodeOutput name

text \<open>
  Modelled from the spec: the tagged binding variant
  \<open>{Literal(value) | Reference(sourceId, field)}\<close> of section 9. The flag of a reference says
  whether the binding is failure-tolerant: a tolerant binding receives \<open>None\<close> from a
  failed upstream, a binding that is not tolerant makes the upstream required and the
  node is bypassed when that upstream failed (section 4.2, section 4.3).
\<close>

datatype binding = Literal val | Reference source bool

text \<open>
  Modelled from the spec: the optional activation condition of a node (section 3); the node is
  active when the referenced value is the given one.
\<close>

datatype condition = When source val

text \<open>
  Modelled from the spec: a Node (section 3): unique name, callable reference with its version,
  named input bindings, optional activation condition, aggregation flag, and whether
  caching is enabled for the node.
\<close>

record node =
  node_name :: name
  callable :: name
  callable_version :: string
  bindings :: "(name \<times> binding) list"
  activation :: "condition option"
  aggregation :: bool
  caching :: bool

text \<open>
  Modelled from the spec: a Flow Graph (section 3): declared flow inputs with their defaults,
  the nodes in declaration order, and the flow outputs, each a reference with the mark
  \<open>required\<close>.
\<close>

record flow_graph =
  flow_inputs :: "(name \<times> val) list"
  nodes :: "node list"
  flow_outputs :: "(name \<times> source \<times> bool) list"

text \<open>Modelled from the spec: the sources a binding refers to (section 3).\<close>

fun binding_sources :: "binding \<Rightarrow> source list" where
  "binding_sources (Literal v) = []"
| "binding_sources (Reference s tolerant) = [s]"

text \<open>Modelled from the spec: the source an activation condition refers to (section 3).\<close>

fun condition_sources :: "condition option \<Rightarrow> source list" where
  "condition_sources None = []"
| "condition_sources (Some (When s v)) = [s]"

text \<open>Modelled from the spec: every reference expression of a node (section 3).\<close>

definition node_sources :: "node \<Rightarrow> source list" where
  "node_sources n =
     concat (map (\<lambda>kb. binding_sources (snd kb)) (bindings n)) @ condition_sources (activation n)"

text \<open>Modelled from the spec: the node names among a list of sources.\<close>

fun source_nodes :: "source list \<Rightarrow> name list" where
  "source_nodes [] = []"
| "source_nodes (FlowInput i # ss) = source_nodes ss"
| "source_nodes (NodeOutput u # ss) = u # source_nodes ss"

text \<open>Modelled from the spec: the nodes a node references (its upstream nodes).\<close>

definition node_refs :: "node \<Rightarrow> name list" where
  "node_refs n = source_nodes (node_sources n)"

text \<open>
  Modelled from the spec: every reference expression of a graph, those of the nodes in
  declaration order, then those of the flow outputs (section 3).
\<close>

definition all_sources :: "flow_graph \<Rightarrow> source list" where
  "all_sources g =
     concat (map node_sources (nodes g)) @ map (\<lambda>out. fst (snd out)) (flow_outputs g)"

text \<open>
  Modelled from the spec: a reference resolves when it names a declared flow input or
  an existing node (section 3).
\<close>

fun resolves :: "flow_graph \<Rightarrow> source \<Rightarrow> bool" where
  "resolves g (FlowInput i) = (i \<in> set (map fst (flow_inputs g)))"
| "resolves g (NodeOutput u) = (u \<in> set (map node_name (nodes g)))"

text \<open>
  Modelled from the spec: the induced dependency graph (section 3): the pairs of a node and a
  node it references.
\<close>

definition depends :: "flow_graph \<Rightarrow> (name \<times> name) set" where
  "depends g =
     set (concat (map (\<lambda>n. map (\<lambda>u. (node_name n, u)) (node_refs n)) (nodes g)))"

subsection \<open>Dependency Resolver\<close>

text \<open>
  Modelled from the spec: a node has indegree zero when every node it references has
  been placed in the order (section 4.1).
\<close>

definition ready :: "name list \<Rightarrow> node \<Rightarrow> bool" where
  "ready placed n = (\<forall>u \<in> set (node_refs n). u \<in> set placed)"

text \<open>
  Modelled from the spec: Kahn's algorithm (section 4.1): repeatedly remove a zero-indegree
  node, the first one in declaration order, until no node is left (the order is
  returned) or none is ready (the nodes left and the order so far are returned).
\<close>

function kahn :: "node list \<Rightarrow> name list \<Rightarrow> (node list \<times> name list) + name list" where
  "kahn remaining placed =
     (case find (ready placed) remaining of
        None \<Rightarrow> if remaining = [] then Inr placed else Inl (remaining, placed)
      | Some n \<Rightarrow> kahn (remove1 n remaining) (placed @ [node_name n]))"
  by pat_completeness auto
termination
proof (relation "measure (\<lambda>(remaining, placed). length remaining)")
  show "wf (measure (\<lambda>(remaining, placed). length remaining))" by simp
next
  fix remaining :: "node list" and placed :: "name list" and n :: node
  assume "find (ready placed) remaining = Some n"
  then have "n \<in> set remaining" by (auto simp: find_Some_iff)
  then have "length (remove1 n remaining) < length remaining"
    using length_pos_if_in_set [of n remaining] by (simp add: length_remove1)
  then show "((remove1 n remaining, placed @ [node_name n]), (remaining, placed))
               \<in> measure (\<lambda>(remaining, placed). length remaining)"
    by simp
qed

declare kahn.simps [simp del]

text \<open>
  Modelled from the spec: from a node that is left, its first reference that has not
  been placed (section 4.1, naming the cycle).
\<close>

definition next_pending :: "node list \<Rightarrow> name list \<Rightarrow> name \<Rightarrow> name" where
  "next_pending remaining placed x =
     (case find (\<lambda>n. node_name n = x) remaining of
        None \<Rightarrow> x
      | Some n \<Rightarrow>
          (case find (\<lambda>u. u \<notin> set placed) (node_refs n) of
             None \<Rightarrow> x
           | Some u \<Rightarrow> u))"

text \<open>
  Modelled from the spec: the node \<open>CyclicDependencyError\<close> names (section 4.1): starting at the
  first node left, follow unplaced references as many times as there are nodes left.
\<close>

definition cycle_node :: "node list \<Rightarrow> name list \<Rightarrow> name" where
  "cycle_node remaining placed =
     (case remaining of
        [] \<Rightarrow> []
      | n # ns \<Rightarrow> (next_pending remaining placed ^^ length remaining) (node_name n))"

text \<open>Modelled from the spec: the graph-validity errors (section 4.1, section 7).\<close>

datatype graph_error = CyclicDependencyError name | UnresolvedReferenceError source

text \<open>
  Modelled from the spec: the Dependency Resolver (section 4.1): build the adjacency map from
  the reference expressions, failing on the first one that does not resolve, then sort.
\<close>

definition resolve_order :: "flow_graph \<Rightarrow> graph_error + name list" where
  "resolve_order g =
     (case find (\<lambda>s. \<not> resolves g s) (all_sources g) of
        Some s \<Rightarrow> Inl (UnresolvedReferenceError s)
      | None \<Rightarrow>
          (case kahn (nodes g) [] of
             Inr order \<Rightarrow> Inr order
           | Inl (remaining, placed) \<Rightarrow> Inl (CyclicDependencyError (cycle_node remaining placed))))"

text \<open>
  Modelled from the spec: aggregation nodes are excluded from the per-line order and
  run in a separate pass (section 4.1).
\<close>

definition per_line_nodes :: "flow_graph \<Rightarrow> name list \<Rightarrow> node list" where
  "per_line_nodes g order =
     concat (map (\<lambda>x. filter (\<lambda>n. node_name n = x \<and> \<not> aggregation n) (nodes g)) order)"

text \<open>The place of an element in a list, counted from zero.\<close>

fun position :: "'a list \<Rightarrow> 'a \<Rightarrow> nat" where
  "position [] x = 0"
| "position (y # ys) x = (if x = y then 0 else Suc (position ys x))"

text \<open>
  The loop invariant of \<open>kahn\<close> over the nodes \<open>ns0\<close> of a graph: the nodes left and
  the names placed partition the graph, and a placed node comes after all it references.
\<close>

definition kahn_inv :: "node list \<Rightarrow> node list \<Rightarrow> name list \<Rightarrow> bool" where
  "kahn_inv ns0 remaining placed =
     (set remaining \<subseteq> set ns0 \<and>
      distinct (map node_name remaining) \<and>
      distinct placed \<and>
      set placed \<inter> node_name ` set remaining = {} \<and>
      set placed \<union> node_name ` set remaining = node_name ` set ns0 \<and>
      (\<forall>n \<in> set ns0. node_name n \<in> set placed \<longrightarrow>
         (\<forall>u \<in> set (node_refs n).
            u \<in> set placed \<and> position placed u < position placed (node_name n))))"

text \<open>Three graphs: a chain declared out of order, a cycle, a cycle beside a dangling reference.\<close>

definition g_abc :: flow_graph where
  "g_abc = \<lparr>flow_inputs = [(''x'', VNone)],
     nodes = [
       \<lparr>node_name = ''c'', callable = ''t'', callable_version = ''1'',
        bindings = [(''in'', Reference (NodeOutput ''b'') False)], activation = None,
        aggregation = False, caching = True\<rparr>,
       \<lparr>node_name = ''a'', callable = ''t'', callable_version = ''1'',
        bindings = [(''in'', Reference (FlowInput ''x'') False)], activation = None,
        aggregation = False, caching = True\<rparr>,
       \<lparr>node_name = ''b'', callable = ''t'', callable_version = ''1'',
        bindings = [(''in'', Reference (NodeOutput ''a'') False)], activation = None,
        aggregation = False, caching = True\<rparr>],
     flow_outputs = [(''out'', NodeOutput ''c'', False)]\<rparr>"

definition g_cycle :: flow_graph where
  "g_cycle = \<lparr>flow_inputs = [],
     nodes = [
       \<lparr>node_name = ''a'', callable = ''t'', callable_version = ''1'',
        bindings = [(''in'', Reference (NodeOutput ''b'') False)], activation = None,
        aggregation = False, caching = True\<rparr>,
       \<lparr>node_name = ''b'', callable = ''t'', callable_version = ''1'',
        bindings = [(''in'', Reference (NodeOutput ''a'') False)], activation = None,
        aggregation = False, caching = True\<rparr>,
       \<lparr>node_name = ''c'', callable = ''t'', callable_version = ''1'',
        bindings = [(''in'', Reference (NodeOutput ''a'') False)], activation = None,
        aggregation = False, caching = True\<rparr>],
     flow_outputs = []\<rparr>"

definition g_cycle_dangling :: flow_graph where
  "g_cycle_dangling = \<lparr>flow_inputs = [],
     nodes = [
       \<lparr>node_name = ''a'', callable = ''t'', callable_version = ''1'',
        bindings = [(''in'', Reference (NodeOutput ''b'') False)], activation = None,
        aggregation = False, caching = True\<rparr>,
       \<lparr>node_name = ''b'', callable = ''t'', callable_version = ''1'',
        bindings = [(''in'', Reference (NodeOutput ''a'') False)], activation = None,
        aggregation = False, caching = True\<rparr>,
       \<lparr>node_name = ''c'', callable = ''t'', callable_version = ''1'',
        bindings = [(''in'', Reference (NodeOutput ''z'') False)], activation = None,
        aggregation = False, caching = True\<rparr>],
     flow_outputs = []\<rparr>"

section \<open>The MSI build workflow: version normalisation and publication\<close>

text \<open>
  The workflow \<open>Build and Package MSI\<close> runs PowerShell steps. Two of them compute on the
  version string: the step \<open>Build Pyinstaller project\<close> turns it into the four-part
  \<open>FILE_VERSION\<close> tuple, and the step \<open>Check if version input is valid and upload JSON file\<close>
  decides whether \<open>latest_version.json\<close> is replaced.
\<close>

subsection \<open>Get promptflow version\<close>

text \<open>
  The step \<open>get-version\<close> takes the version from the workflow input, which must be the
  version of the installed package, else from the private version input, else from the
  date. A non-empty string is true in \<open>if\<close>; \<open>throw\<close> is \<open>None\<close>. The string
  comparison \<open>-ne\<close> belongs to the platform and is a parameter; the date parts arrive
  as the integers the casts \<open>[int](Get-Date -Format ...)\<close> give.
\<close>

fun digit_char :: "nat \<Rightarrow> char" where
  "digit_char n = char_of (48 + n)"

fun decimal :: "nat \<Rightarrow> string" where
  "decimal n = (if n < 10 then [digit_char n] else decimal (n div 10) @ [digit_char (n mod 10)])"

declare decimal.simps [simp del]

definition get_version ::
  "(string \<Rightarrow> string \<Rightarrow> bool) \<Rightarrow> string \<Rightarrow> string \<Rightarrow> string \<Rightarrow> nat \<Rightarrow> nat \<Rightarrow> nat
     \<Rightarrow> string option" where
  "get_version ne INPUT_VERSION run_version MSI_PRIVATE_VERSION year monthday hourminutesecond =
     (if INPUT_VERSION \<noteq> [] then
        (if ne INPUT_VERSION run_version then None else Some INPUT_VERSION)
      else if MSI_PRIVATE_VERSION \<noteq> [] then Some MSI_PRIVATE_VERSION
      else Some (decimal 0 @ ''.'' @ decimal year @ ''.'' @ decimal monthday
                 @ ''.'' @ decimal hourminutesecond))"

subsection \<open>Build Pyinstaller project\<close>

text \<open>
  \<open>$versionString.Split('.')\<close>: the pieces between the separators, empty pieces kept, so
  a string without a separator is one piece and the empty string is one empty piece.
\<close>

fun Split :: "char \<Rightarrow> string \<Rightarrow> string list" where
  "Split c [] = [[]]"
| "Split c (x # xs) =
     (if x = c then [] # Split c xs
      else (case Split c xs of
              [] \<Rightarrow> [[x]]
            | w # ws \<Rightarrow> (x # w) # ws))"






text \<open>
  The string whose dot-separated components are the given ones: what \<open>Split\<close> takes
  apart. It is used to state which components a version string has.
\<close>

fun dotted :: "string list \<Rightarrow> string" where
  "dotted [] = []"
| "dotted [p] = p"
| "dotted (p # q # ps) = p @ CHR ''.'' # dotted (q # ps)"

subsection \<open>Check if version input is valid and upload JSON file\<close>

text \<open>
  A \<open>[Version]\<close> value has four integer parts, compared part by part from the left; a
  part the string does not give is \<open>-1\<close>. The cast of a string that is no version raises.
  The cast itself belongs to the platform, so the step is modelled over any parser
  \<open>cast :: string \<Rightarrow> Version option\<close>, \<open>None\<close> being the raise.
\<close>

record Version =
  Major :: int
  Minor :: int
  Build :: int
  Revision :: int

definition version_gt :: "Version \<Rightarrow> Version \<Rightarrow> bool" where
  "version_gt a b =
     (Major a > Major b \<or>
      (Major a = Major b \<and>
        (Minor a > Minor b \<or>
         (Minor a = Minor b \<and>
           (Build a > Build b \<or>
            (Build a = Build b \<and> Revision a > Revision b))))))"

definition version_ge :: "Version \<Rightarrow> Version \<Rightarrow> bool" where
  "version_ge a b = (version_gt a b \<or>
     (Major a = Major b \<and> Minor a = Minor b \<and> Build a = Build b \<and> Revision a = Revision b))"

text \<open>\<open>$version -like '1.*'\<close>: the string begins with \<open>1.\<close>.\<close>

definition like_1_star :: "string \<Rightarrow> bool" where
  "like_1_star version = (take 2 version = ''1.'')"

datatype upload_outcome = Uploaded string | Skipped | CastFailed

text \<open>
  The condition is \<open>$version -like '1.*' -and [Version]$version -gt [Version]$downloaded_version\<close>;
  \<open>-and\<close> does not evaluate its right side when the left side is false.
\<close>

definition check_and_upload ::
  "(string \<Rightarrow> Version option) \<Rightarrow> string \<Rightarrow> string \<Rightarrow> upload_outcome" where
  "check_and_upload cast version downloaded_version =
     (if \<not> like_1_star version then Skipped
      else (case cast version of
              None \<Rightarrow> CastFailed
            | Some v \<Rightarrow>
                (case cast downloaded_version of
                   None \<Rightarrow> CastFailed
                 | Some d \<Rightarrow> if version_gt v d then Uploaded version else Skipped)))"

text \<open>
  The published file lives in blob storage, shared by all runs of the workflow. A run
  reads it in its step \<open>Download JSON file from Azure Blob Storage\<close>, which keeps the
  value as the step output \<open>downloaded_version\<close>, and may replace it later, in its check
  step. The workflow starts on \<open>workflow_dispatch\<close> and declares no concurrency group,
  so the steps of different runs interleave freely. The store holds the published
  version and, per run, what that run downloaded.
\<close>

record blob_store =
  latest_version_json :: string
  downloaded_version :: "nat \<Rightarrow> string option"

datatype workflow_step = DownloadJson nat | CheckAndUpload nat

text \<open>
  One step of run \<open>r\<close>, whose version is \<open>version r\<close>. The check step compares with
  what the run downloaded, not with the store. Within a run the check step comes after
  the download step; a check step with nothing downloaded is no execution of the
  workflow and leaves the store as it is.
\<close>

fun run_step ::
  "(string \<Rightarrow> Version option) \<Rightarrow> (nat \<Rightarrow> string) \<Rightarrow> blob_store \<Rightarrow> workflow_step \<Rightarrow> blob_store" where
  "run_step cast version st (DownloadJson r) =
     st\<lparr>downloaded_version := (downloaded_version st)(r \<mapsto> latest_version_json st)\<rparr>"
| "run_step cast version st (CheckAndUpload r) =
     (case downloaded_version st r of
        None \<Rightarrow> st
      | Some d \<Rightarrow>
          (case check_and_upload cast (version r) d of
             Uploaded v \<Rightarrow> st\<lparr>latest_version_json := v\<rparr>
           | Skipped \<Rightarrow> st
           | CastFailed \<Rightarrow> st))"

definition run_steps ::
  "(string \<Rightarrow> Version option) \<Rightarrow> (nat \<Rightarrow> string) \<Rightarrow> blob_store \<Rightarrow> workflow_step list \<Rightarrow> blob_store" where
  "run_steps cast version st steps = foldl (run_step cast version) st steps"

text \<open>Runs that do not overlap: each run downloads and checks before the next run starts.\<close>

definition one_after_another :: "nat list \<Rightarrow> workflow_step list" where
  "one_after_another rs = concat (map (\<lambda>r. [DownloadJson r, CheckAndUpload r]) rs)"

text \<open>
  The platform's cast, for the concrete examples (the theorems hold for every cast).
  \<open>System.Version\<close> wants two to four components separated by dots; each is read as
  \<open>int.Parse\<close> reads an integer: blanks, an optional sign, one or more digits, blanks,
  then possibly null characters; the value must fit 32 bits and must not be negative.
\<close>

definition is_white :: "char \<Rightarrow> bool" where
  "is_white c = (let n = of_char c :: nat in n = 32 \<or> (9 \<le> n \<and> n \<le> 13))"

definition is_digit :: "char \<Rightarrow> bool" where
  "is_digit c = (let n = of_char c :: nat in 48 \<le> n \<and> n \<le> 57)"

fun digits_value :: "int \<Rightarrow> string \<Rightarrow> int" where
  "digits_value acc [] = acc"
| "digits_value acc (c # cs) = digits_value (10 * acc + (of_char c - 48)) cs"

fun strip_sign :: "string \<Rightarrow> bool \<times> string" where
  "strip_sign [] = (False, [])"
| "strip_sign (c # cs) =
     (if c = CHR ''-'' then (True, cs) else if c = CHR ''+'' then (False, cs) else (False, c # cs))"

definition parse_Int32 :: "string \<Rightarrow> int option" where
  "parse_Int32 s =
     (let (negative, unsigned) = strip_sign (dropWhile is_white s);
          digits = takeWhile is_digit unsigned;
          trailing = dropWhile (\<lambda>c. of_char c = (0::nat))
                       (dropWhile is_white (dropWhile is_digit unsigned));
          n = digits_value 0 digits
      in if digits = [] \<or> trailing \<noteq> [] then None
         else if negative then (if n \<le> 2147483648 then Some (- n) else None)
         else (if n \<le> 2147483647 then Some n else None))"

definition parse_component :: "string \<Rightarrow> int option" where
  "parse_component s =
     (case parse_Int32 s of
        None \<Rightarrow> None
      | Some i \<Rightarrow> if i < 0 then None else Some i)"

fun all_components :: "int option list \<Rightarrow> int list option" where
  "all_components [] = Some []"
| "all_components (None # xs) = None"
| "all_components (Some i # xs) =
     (case all_components xs of None \<Rightarrow> None | Some is \<Rightarrow> Some (i # is))"

fun version_of :: "int list \<Rightarrow> Version option" where
  "version_of [a, b] = Some \<lparr>Major = a, Minor = b, Build = -1, Revision = -1\<rparr>"
| "version_of [a, b, c] = Some \<lparr>Major = a, Minor = b, Build = c, Revision = -1\<rparr>"
| "version_of [a, b, c, d] = Some \<lparr>Major = a, Minor = b, Build = c, Revision = d\<rparr>"
| "version_of is = None"

definition parse_Version :: "string \<Rightarrow> Version option" where
  "parse_Version s =
     (case all_components (map parse_component (Split CHR ''.'' s)) of
        None \<Rightarrow> None
      | Some is \<Rightarrow> version_of is)"

text \<open>Two runs that overlap: run 0 builds 1.5.0, run 1 builds 1.2.0, and 1.0.0 is published.\<close>

definition two_runs :: "nat \<Rightarrow> string" where
  "two_runs r = (if r = 0 then ''1.5.0'' else ''1.2.0'')"

definition published_1_0_0 :: blob_store where
  "published_1_0_0 = \<lparr>latest_version_json = ''1.0.0'', downloaded_version = Map.empty\<rparr>"

section \<open>Properties of the Dependency Resolver\<close>

lemma position_less: "x \<in> set xs \<Longrightarrow> position xs x < length xs"
  by (induction xs) auto

lemma position_append_in: "x \<in> set xs \<Longrightarrow> position (xs @ ys) x = position xs x"
  by (induction xs) auto

lemma position_append_notin: "x \<notin> set xs \<Longrightarrow> position (xs @ ys) x = length xs + position ys x"
  by (induction xs) auto

lemma find_SomeD: "find P xs = Some x \<Longrightarrow> x \<in> set xs \<and> P x"
  by (auto simp: find_Some_iff)

lemma kahn_inv_init: "distinct (map node_name ns0) \<Longrightarrow> kahn_inv ns0 ns0 []"
  by (simp add: kahn_inv_def)

lemma names_remove1:
  assumes "distinct (map node_name remaining)" "n \<in> set remaining"
  shows "node_name ` set (remove1 n remaining) = node_name ` set remaining - {node_name n}"
proof -
  from assms have d: "distinct remaining" and i: "inj_on node_name (set remaining)"
    by (simp_all add: distinct_map)
  from d have "set (remove1 n remaining) = set remaining - {n}" by simp
  with i assms(2) show ?thesis
    by (auto simp: inj_on_def)
qed

lemma kahn_inv_step:
  assumes inv: "kahn_inv ns0 remaining placed"
    and dist: "distinct (map node_name ns0)"
    and found: "find (ready placed) remaining = Some n"
  shows "kahn_inv ns0 (remove1 n remaining) (placed @ [node_name n])"
proof -
  from found have n_in: "n \<in> set remaining" and n_ready: "ready placed n"
    using find_SomeD by fastforce+
  from inv have sub: "set remaining \<subseteq> set ns0"
    and dr: "distinct (map node_name remaining)"
    and dp: "distinct placed"
    and disj: "set placed \<inter> node_name ` set remaining = {}"
    and un: "set placed \<union> node_name ` set remaining = node_name ` set ns0"
    and topo: "\<forall>m \<in> set ns0. node_name m \<in> set placed \<longrightarrow>
         (\<forall>u \<in> set (node_refs m).
            u \<in> set placed \<and> position placed u < position placed (node_name m))"
    by (simp_all add: kahn_inv_def)
  have names: "node_name ` set (remove1 n remaining) = node_name ` set remaining - {node_name n}"
    using dr n_in by (rule names_remove1)
  from n_in disj have fresh: "node_name n \<notin> set placed" by auto
  have 1: "set (remove1 n remaining) \<subseteq> set ns0"
    using sub set_remove1_subset by fast
  from dr have 2: "distinct (map node_name (remove1 n remaining))"
    by (simp add: distinct_map inj_on_def)
  from dp fresh have 3: "distinct (placed @ [node_name n])" by simp
  from disj names have 4: "set (placed @ [node_name n]) \<inter> node_name ` set (remove1 n remaining) = {}"
    by auto
  from un names n_in
  have 5: "set (placed @ [node_name n]) \<union> node_name ` set (remove1 n remaining) = node_name ` set ns0"
    by auto
  have 6: "\<forall>m \<in> set ns0. node_name m \<in> set (placed @ [node_name n]) \<longrightarrow>
         (\<forall>u \<in> set (node_refs m).
            u \<in> set (placed @ [node_name n]) \<and>
            position (placed @ [node_name n]) u < position (placed @ [node_name n]) (node_name m))"
  proof (intro ballI impI)
    fix m u
    assume m_in: "m \<in> set ns0" and m_placed: "node_name m \<in> set (placed @ [node_name n])"
      and u_ref: "u \<in> set (node_refs m)"
    show "u \<in> set (placed @ [node_name n]) \<and>
            position (placed @ [node_name n]) u < position (placed @ [node_name n]) (node_name m)"
    proof (cases "node_name m \<in> set placed")
      case True
      with topo m_in u_ref have "u \<in> set placed" "position placed u < position placed (node_name m)"
        by auto
      with True show ?thesis by (simp add: position_append_in)
    next
      case False
      with m_placed have same: "node_name m = node_name n" by simp
      from n_in sub have "n \<in> set ns0" by auto
      with dist m_in same have "m = n" by (auto simp: distinct_map inj_on_def)
      with n_ready u_ref have u_placed: "u \<in> set placed" by (simp add: ready_def)
      then have "position placed u < length placed" by (rule position_less)
      with u_placed False same fresh show ?thesis
        by (simp add: position_append_in position_append_notin)
    qed
  qed
  from 1 2 3 4 5 6 show ?thesis unfolding kahn_inv_def by blast
qed

lemma kahn_Inr_inv:
  "kahn_inv ns0 remaining placed \<Longrightarrow> distinct (map node_name ns0) \<Longrightarrow>
   kahn remaining placed = Inr order \<Longrightarrow> kahn_inv ns0 [] order"
proof (induction remaining placed rule: kahn.induct)
  case (1 remaining placed)
  show ?case
  proof (cases "find (ready placed) remaining")
    case None
    with "1.prems"(3) have "remaining = []" "order = placed"
      by (auto simp: kahn.simps split: if_splits)
    with "1.prems"(1) show ?thesis by simp
  next
    case (Some n)
    with "1.prems"(3) have k: "kahn (remove1 n remaining) (placed @ [node_name n]) = Inr order"
      by (simp add: kahn.simps)
    from "1.prems"(1,2) Some have "kahn_inv ns0 (remove1 n remaining) (placed @ [node_name n])"
      by (rule kahn_inv_step)
    from "1.IH" [OF Some this "1.prems"(2) k] show ?thesis .
  qed
qed

lemma kahn_Inl_inv:
  "kahn_inv ns0 remaining placed \<Longrightarrow> distinct (map node_name ns0) \<Longrightarrow>
   kahn remaining placed = Inl (r, p) \<Longrightarrow>
   kahn_inv ns0 r p \<and> r \<noteq> [] \<and> find (ready p) r = None"
proof (induction remaining placed rule: kahn.induct)
  case (1 remaining placed)
  show ?case
  proof (cases "find (ready placed) remaining")
    case None
    with "1.prems"(3) have "remaining \<noteq> []" "r = remaining" "p = placed"
      by (auto simp: kahn.simps split: if_splits)
    with "1.prems"(1) None show ?thesis by simp
  next
    case (Some n)
    with "1.prems"(3) have k: "kahn (remove1 n remaining) (placed @ [node_name n]) = Inl (r, p)"
      by (simp add: kahn.simps)
    from "1.prems"(1,2) Some have "kahn_inv ns0 (remove1 n remaining) (placed @ [node_name n])"
      by (rule kahn_inv_step)
    from "1.IH" [OF Some this "1.prems"(2) k] show ?thesis .
  qed
qed

lemma depends_iff:
  "(a, b) \<in> depends g \<longleftrightarrow> (\<exists>n \<in> set (nodes g). node_name n = a \<and> b \<in> set (node_refs n))"
  by (auto simp: depends_def)

lemma source_nodes_iff: "u \<in> set (source_nodes ss) \<longleftrightarrow> NodeOutput u \<in> set ss"
  by (induction ss rule: source_nodes.induct) auto

lemma refs_resolve:
  assumes "find (\<lambda>s. \<not> resolves g s) (all_sources g) = None"
    and "n \<in> set (nodes g)" and "u \<in> set (node_refs n)"
  shows "u \<in> node_name ` set (nodes g)"
proof -
  from assms(3) have "NodeOutput u \<in> set (node_sources n)"
    by (simp add: node_refs_def source_nodes_iff)
  with assms(2) have "NodeOutput u \<in> set (all_sources g)"
    by (auto simp: all_sources_def)
  with assms(1) have "resolves g (NodeOutput u)"
    by (auto simp: find_None_iff)
  then show ?thesis by simp
qed

text \<open>In a stuck state every remaining node has a pending reference among the remaining nodes.\<close>

lemma next_pending_step:
  assumes inv: "kahn_inv (nodes g) r p"
    and nodangling: "find (\<lambda>s. \<not> resolves g s) (all_sources g) = None"
    and stuck: "find (ready p) r = None"
    and x: "x \<in> node_name ` set r"
  shows "next_pending r p x \<in> node_name ` set r \<and> (x, next_pending r p x) \<in> depends g"
proof -
  from x have "\<exists>n \<in> set r. node_name n = x" by auto
  then obtain n where f: "find (\<lambda>n. node_name n = x) r = Some n"
    by (cases "find (\<lambda>n. node_name n = x) r") (auto simp: find_None_iff)
  then have n_in: "n \<in> set r" and n_name: "node_name n = x"
    using find_SomeD by fastforce+
  from stuck n_in have "\<not> ready p n" by (auto simp: find_None_iff)
  then have "\<exists>u \<in> set (node_refs n). u \<notin> set p" by (auto simp: ready_def)
  then obtain u where fu: "find (\<lambda>u. u \<notin> set p) (node_refs n) = Some u"
    by (cases "find (\<lambda>u. u \<notin> set p) (node_refs n)") (auto simp: find_None_iff)
  then have u_ref: "u \<in> set (node_refs n)" and u_pending: "u \<notin> set p"
    using find_SomeD by fastforce+
  from f fu have nx: "next_pending r p x = u" by (simp add: next_pending_def)
  from inv n_in have n_all: "n \<in> set (nodes g)" by (auto simp: kahn_inv_def)
  from refs_resolve [OF nodangling n_all u_ref] have "u \<in> node_name ` set (nodes g)" .
  moreover from inv have "set p \<union> node_name ` set r = node_name ` set (nodes g)"
    by (simp add: kahn_inv_def)
  ultimately have "u \<in> node_name ` set r" using u_pending by blast
  moreover from n_all n_name u_ref have "(x, u) \<in> depends g" by (auto simp: depends_iff)
  ultimately show ?thesis using nx by simp
qed

lemma next_pending_funpow:
  assumes inv: "kahn_inv (nodes g) r p"
    and nodangling: "find (\<lambda>s. \<not> resolves g s) (all_sources g) = None"
    and stuck: "find (ready p) r = None"
    and x: "x \<in> node_name ` set r"
  shows "(next_pending r p ^^ k) x \<in> node_name ` set r \<and>
         (x, (next_pending r p ^^ k) x) \<in> (depends g)\<^sup>*"
proof (induction k)
  case 0
  with x show ?case by simp
next
  case (Suc k)
  then have a: "(next_pending r p ^^ k) x \<in> node_name ` set r"
    and b: "(x, (next_pending r p ^^ k) x) \<in> (depends g)\<^sup>*" by simp_all
  from next_pending_step [OF inv nodangling stuck a] b show ?case
    by (auto intro: rtrancl_into_rtrancl)
qed

lemma next_pending_funpow_trancl:
  assumes inv: "kahn_inv (nodes g) r p"
    and nodangling: "find (\<lambda>s. \<not> resolves g s) (all_sources g) = None"
    and stuck: "find (ready p) r = None"
    and x: "x \<in> node_name ` set r"
  shows "(x, (next_pending r p ^^ Suc k) x) \<in> (depends g)\<^sup>+"
proof -
  from next_pending_funpow [OF inv nodangling stuck x, of k]
  have a: "(next_pending r p ^^ k) x \<in> node_name ` set r"
    and b: "(x, (next_pending r p ^^ k) x) \<in> (depends g)\<^sup>*" by simp_all
  from next_pending_step [OF inv nodangling stuck a] b show ?thesis
    by (auto intro: rtrancl_into_trancl1)
qed

lemma funpow_apply_add: "(f ^^ m) ((f ^^ n) x) = (f ^^ (m + n)) x"
  by (simp add: funpow_add)

lemma stuck_cycle:
  assumes inv: "kahn_inv (nodes g) r p"
    and nodangling: "find (\<lambda>s. \<not> resolves g s) (all_sources g) = None"
    and stuck: "find (ready p) r = None"
    and nonempty: "r \<noteq> []"
  shows "(cycle_node r p, cycle_node r p) \<in> (depends g)\<^sup>+"
proof -
  let ?goal = "(cycle_node r p, cycle_node r p) \<in> (depends g)\<^sup>+"
  let ?f = "next_pending r p"
  let ?N = "length r"
  from nonempty obtain n0 ns where r: "r = n0 # ns" by (cases r) auto
  let ?x = "node_name n0"
  from r have x_in: "?x \<in> node_name ` set r" by simp
  have cn: "cycle_node r p = (?f ^^ ?N) ?x"
    unfolding cycle_node_def r by simp
  let ?h = "\<lambda>k. (?f ^^ k) ?x"
  have img: "?h ` {0..?N} \<subseteq> node_name ` set r"
    using next_pending_funpow [OF inv nodangling stuck x_in] by auto
  have "card (node_name ` set r) \<le> ?N"
    by (metis card_image_le card_length le_trans List.finite_set)
  with img have "card (?h ` {0..?N}) \<le> ?N"
    by (meson card_mono finite_imageI List.finite_set le_trans)
  then have "card (?h ` {0..?N}) < card {0..?N}" by simp
  then have "\<not> inj_on ?h {0..?N}" using pigeonhole by blast
  then obtain i j where ij: "i \<le> ?N" "j \<le> ?N" "i \<noteq> j" "?h i = ?h j"
    by (auto simp: inj_on_def)
  have main: "\<And>a b. a < b \<Longrightarrow> b \<le> ?N \<Longrightarrow> ?h a = ?h b \<Longrightarrow> ?goal"
  proof -
    fix a b :: nat
    assume ab: "a < b" "b \<le> ?N" "?h a = ?h b"
    let ?y = "?h ?N"
    obtain d where d: "b = a + Suc d" using ab(1) less_iff_Suc_add by auto
    obtain e where e: "?N = a + e" using ab(1,2) by (metis le_iff_add less_imp_le le_trans)
    have "(?f ^^ Suc d) ?y = (?f ^^ (e + b)) ?x"
      unfolding funpow_apply_add e d by (simp add: add.commute add.left_commute)
    also have "\<dots> = (?f ^^ e) (?h b)" by (simp only: funpow_apply_add)
    also have "\<dots> = (?f ^^ e) (?h a)" using ab(3) by simp
    also have "\<dots> = (?f ^^ (e + a)) ?x" by (simp only: funpow_apply_add)
    also have "\<dots> = ?y" unfolding e by (simp add: add.commute)
    finally have fixed: "(?f ^^ Suc d) ?y = ?y" .
    from next_pending_funpow [OF inv nodangling stuck x_in, of ?N]
    have y_in: "?y \<in> node_name ` set r" by simp
    from next_pending_funpow_trancl [OF inv nodangling stuck y_in, of d] fixed
    have "(?y, ?y) \<in> (depends g)\<^sup>+" by simp
    with cn show ?goal by simp
  qed
  show ?thesis
  proof (cases "i < j")
    case True
    with ij main [of i j] show ?thesis by simp
  next
    case False
    with ij have "j < i" by simp
    with ij main [of j i] show ?thesis by simp
  qed
qed

lemma topo_order_acyclic:
  assumes "\<forall>n \<in> set (nodes g). \<forall>u \<in> set (node_refs n).
             position order u < position order (node_name n)"
  shows "acyclic (depends g)"
proof (rule acyclicI_order [where f = "position order"])
  fix a b
  assume "(a, b) \<in> depends g"
  with assms show "position order b < position order a"
    by (auto simp: depends_iff)
qed

lemma find_dangling_None_iff:
  "find (\<lambda>s. \<not> resolves g s) (all_sources g) = None \<longleftrightarrow> (\<forall>s \<in> set (all_sources g). resolves g s)"
  by (auto simp: find_None_iff)

text \<open>
  Claim C1, as amended. For every graph with unique node names whose references all
  resolve: if the dependency graph is acyclic, the resolver returns an order that holds
  every node once and in which every node comes strictly after all nodes it references;
  if it has a cycle, the resolver fails with \<open>CyclicDependencyError\<close> naming a node that
  lies on a cycle. For every graph with a reference that does not resolve, the resolver
  fails with \<open>UnresolvedReferenceError\<close> naming such a reference.
\<close>

theorem resolve_order_correct:
  "(distinct (map node_name (nodes g)) \<and> (\<forall>s \<in> set (all_sources g). resolves g s) \<and>
      acyclic (depends g) \<longrightarrow>
      (\<exists>order. resolve_order g = Inr order \<and> distinct order \<and>
         set order = set (map node_name (nodes g)) \<and>
         (\<forall>n \<in> set (nodes g). \<forall>u \<in> set (node_refs n).
            position order u < position order (node_name n)))) \<and>
   (distinct (map node_name (nodes g)) \<and> (\<forall>s \<in> set (all_sources g). resolves g s) \<and>
      \<not> acyclic (depends g) \<longrightarrow>
      (\<exists>x. resolve_order g = Inl (CyclicDependencyError x) \<and> (x, x) \<in> (depends g)\<^sup>+)) \<and>
   ((\<exists>s \<in> set (all_sources g). \<not> resolves g s) \<longrightarrow>
      (\<exists>s. resolve_order g = Inl (UnresolvedReferenceError s) \<and>
           s \<in> set (all_sources g) \<and> \<not> resolves g s))"
proof (intro conjI impI)
  assume "\<exists>s \<in> set (all_sources g). \<not> resolves g s"
  then obtain s where "find (\<lambda>s. \<not> resolves g s) (all_sources g) = Some s"
    by (cases "find (\<lambda>s. \<not> resolves g s) (all_sources g)") (auto simp: find_None_iff)
  moreover from this have "s \<in> set (all_sources g)" "\<not> resolves g s"
    using find_SomeD by fastforce+
  ultimately show "\<exists>s. resolve_order g = Inl (UnresolvedReferenceError s) \<and>
           s \<in> set (all_sources g) \<and> \<not> resolves g s"
    by (auto simp: resolve_order_def)
next
  assume h: "distinct (map node_name (nodes g)) \<and> (\<forall>s \<in> set (all_sources g). resolves g s) \<and>
      acyclic (depends g)"
  then have dist: "distinct (map node_name (nodes g))"
    and nd: "find (\<lambda>s. \<not> resolves g s) (all_sources g) = None"
    and ac: "acyclic (depends g)"
    by (simp_all add: find_dangling_None_iff)
  from dist have init: "kahn_inv (nodes g) (nodes g) []" by (rule kahn_inv_init)
  show "\<exists>order. resolve_order g = Inr order \<and> distinct order \<and>
         set order = set (map node_name (nodes g)) \<and>
         (\<forall>n \<in> set (nodes g). \<forall>u \<in> set (node_refs n).
            position order u < position order (node_name n))"
  proof (cases "kahn (nodes g) []")
    case (Inl rp)
    obtain r p where rp: "rp = (r, p)" by (cases rp)
    from kahn_Inl_inv [OF init dist Inl [unfolded rp]]
    have "kahn_inv (nodes g) r p" "r \<noteq> []" "find (ready p) r = None" by simp_all
    from stuck_cycle [OF this(1) nd this(3) this(2)] ac show ?thesis
      by (simp add: acyclic_def)
  next
    case (Inr order)
    from kahn_Inr_inv [OF init dist Inr] have "kahn_inv (nodes g) [] order" .
    then have "distinct order" "set order = node_name ` set (nodes g)"
      "\<forall>n \<in> set (nodes g). \<forall>u \<in> set (node_refs n).
            position order u < position order (node_name n)"
      by (auto simp: kahn_inv_def)
    with Inr nd show ?thesis by (simp add: resolve_order_def)
  qed
next
  assume h: "distinct (map node_name (nodes g)) \<and> (\<forall>s \<in> set (all_sources g). resolves g s) \<and>
      \<not> acyclic (depends g)"
  then have dist: "distinct (map node_name (nodes g))"
    and nd: "find (\<lambda>s. \<not> resolves g s) (all_sources g) = None"
    and cyc: "\<not> acyclic (depends g)"
    by (simp_all add: find_dangling_None_iff)
  from dist have init: "kahn_inv (nodes g) (nodes g) []" by (rule kahn_inv_init)
  show "\<exists>x. resolve_order g = Inl (CyclicDependencyError x) \<and> (x, x) \<in> (depends g)\<^sup>+"
  proof (cases "kahn (nodes g) []")
    case (Inl rp)
    obtain r p where rp: "rp = (r, p)" by (cases rp)
    from kahn_Inl_inv [OF init dist Inl [unfolded rp]]
    have "kahn_inv (nodes g) r p" "r \<noteq> []" "find (ready p) r = None" by simp_all
    from stuck_cycle [OF this(1) nd this(3) this(2)] Inl rp nd show ?thesis
      by (simp add: resolve_order_def)
  next
    case (Inr order)
    from kahn_Inr_inv [OF init dist Inr] have "kahn_inv (nodes g) [] order" .
    then have "\<forall>n \<in> set (nodes g). \<forall>u \<in> set (node_refs n).
            position order u < position order (node_name n)"
      by (auto simp: kahn_inv_def)
    then have "acyclic (depends g)" by (rule topo_order_acyclic)
    with cyc show ?thesis by simp
  qed
qed

lemma nodes_g_abc: "map node_name (nodes g_abc) = [''c'', ''a'', ''b'']"
  by (simp add: g_abc_def)

lemma sources_g_abc:
  "all_sources g_abc = [NodeOutput ''b'', FlowInput ''x'', NodeOutput ''a'', NodeOutput ''c'']"
  by (simp add: g_abc_def all_sources_def node_sources_def)

lemma depends_g_abc: "depends g_abc = {(''c'', ''b''), (''b'', ''a'')}"
  by (auto simp: g_abc_def depends_def node_refs_def node_sources_def)

lemma resolve_g_abc: "resolve_order g_abc = Inr [''a'', ''b'', ''c'']"
  by (simp add: resolve_order_def sources_g_abc, simp add: g_abc_def kahn.simps ready_def node_refs_def node_sources_def)

lemma depends_g_cycle: "depends g_cycle = {(''a'', ''b''), (''b'', ''a''), (''c'', ''a'')}"
  by (auto simp: g_cycle_def depends_def node_refs_def node_sources_def)

lemma sources_g_cycle:
  "all_sources g_cycle = [NodeOutput ''b'', NodeOutput ''a'', NodeOutput ''a'']"
  by (simp add: g_cycle_def all_sources_def node_sources_def)

lemma resolve_g_cycle: "resolve_order g_cycle = Inl (CyclicDependencyError ''b'')"
  by (simp add: resolve_order_def sources_g_cycle, simp add: g_cycle_def kahn.simps ready_def node_refs_def node_sources_def cycle_node_def next_pending_def numeral_3_eq_3)

lemma depends_g_cycle_dangling:
  "depends g_cycle_dangling = {(''a'', ''b''), (''b'', ''a''), (''c'', ''z'')}"
  by (auto simp: g_cycle_dangling_def depends_def node_refs_def node_sources_def)

lemma sources_g_cycle_dangling:
  "all_sources g_cycle_dangling = [NodeOutput ''b'', NodeOutput ''a'', NodeOutput ''z'']"
  by (simp add: g_cycle_dangling_def all_sources_def node_sources_def)

lemma resolve_g_cycle_dangling:
  "resolve_order g_cycle_dangling = Inl (UnresolvedReferenceError (NodeOutput ''z''))"
  by (simp add: resolve_order_def sources_g_cycle_dangling, simp add: g_cycle_dangling_def)

text \<open>
  The claim as first stated asks for \<open>CyclicDependencyError\<close> on every graph with a cycle
  and for \<open>UnresolvedReferenceError\<close> on every dangling reference. A graph can have both;
  the resolver, which checks the references while it builds the adjacency map, then
  reports the dangling reference.
\<close>

theorem resolve_order_cycle_and_dangling_counterexample:
  "(''a'', ''a'') \<in> (depends g_cycle_dangling)\<^sup>+ \<and>
   resolve_order g_cycle_dangling = Inl (UnresolvedReferenceError (NodeOutput ''z''))"
proof -
  have "(''a'', ''b'') \<in> depends g_cycle_dangling" "(''b'', ''a'') \<in> depends g_cycle_dangling"
    by (simp_all add: depends_g_cycle_dangling)
  then have "(''a'', ''a'') \<in> (depends g_cycle_dangling)\<^sup>+" by (rule trancl_trans [OF r_into_trancl r_into_trancl])
  with resolve_g_cycle_dangling show ?thesis by simp
qed


theorem resolve_order_correct_witness:
  "distinct (map node_name (nodes g_abc)) \<and> acyclic (depends g_abc) \<and>
   resolve_order g_abc = Inr [''a'', ''b'', ''c''] \<and>
   position [''a'', ''b'', ''c''] ''a'' < position [''a'', ''b'', ''c''] ''b'' \<and>
   position [''a'', ''b'', ''c''] ''b'' < position [''a'', ''b'', ''c''] ''c'' \<and>
   \<not> acyclic (depends g_cycle) \<and>
   resolve_order g_cycle = Inl (CyclicDependencyError ''b'') \<and>
   (''b'', ''b'') \<in> (depends g_cycle)\<^sup>+ \<and>
   \<not> resolves g_cycle_dangling (NodeOutput ''z'') \<and>
   resolve_order g_cycle_dangling = Inl (UnresolvedReferenceError (NodeOutput ''z''))"
proof -
  have d1: "distinct (map node_name (nodes g_abc))" by (simp add: nodes_g_abc)
  have r1: "\<forall>s \<in> set (all_sources g_abc). resolves g_abc s"
    by (simp add: sources_g_abc) (simp add: g_abc_def)
  have a1: "acyclic (depends g_abc)"
  proof (rule acyclicI_order [where f = "position [''a'', ''b'', ''c'']"])
    fix x y assume "(x, y) \<in> depends g_abc"
    then show "position [''a'', ''b'', ''c''] y < position [''a'', ''b'', ''c''] x"
      by (auto simp: depends_g_abc)
  qed
  from d1 r1 a1 resolve_order_correct [of g_abc]
  obtain order where o: "resolve_order g_abc = Inr order"
    and p: "\<forall>n \<in> set (nodes g_abc). \<forall>u \<in> set (node_refs n).
            position order u < position order (node_name n)"
    by blast
  from o have order: "order = [''a'', ''b'', ''c'']" by (simp add: resolve_g_abc)
  from p have p1: "position [''a'', ''b'', ''c''] ''a'' < position [''a'', ''b'', ''c''] ''b''"
    and p2: "position [''a'', ''b'', ''c''] ''b'' < position [''a'', ''b'', ''c''] ''c''"
    unfolding order by (simp_all add: g_abc_def node_refs_def node_sources_def)
  have d2: "distinct (map node_name (nodes g_cycle))" by (simp add: g_cycle_def)
  have r2: "\<forall>s \<in> set (all_sources g_cycle). resolves g_cycle s"
    by (simp add: sources_g_cycle) (simp add: g_cycle_def)
  have "(''a'', ''b'') \<in> depends g_cycle" "(''b'', ''a'') \<in> depends g_cycle"
    by (simp_all add: depends_g_cycle)
  then have "(''a'', ''a'') \<in> (depends g_cycle)\<^sup>+"
    by (rule trancl_trans [OF r_into_trancl r_into_trancl])
  then have c2: "\<not> acyclic (depends g_cycle)" by (auto simp: acyclic_def)
  from d2 r2 c2 resolve_order_correct [of g_cycle]
  obtain x where x: "resolve_order g_cycle = Inl (CyclicDependencyError x)"
    and xx: "(x, x) \<in> (depends g_cycle)\<^sup>+"
    by blast
  from x have "x = ''b''" by (simp add: resolve_g_cycle)
  with xx have b2: "(''b'', ''b'') \<in> (depends g_cycle)\<^sup>+" by simp
  have z: "\<not> resolves g_cycle_dangling (NodeOutput ''z'')" by (simp add: g_cycle_dangling_def)
  then have "\<exists>s \<in> set (all_sources g_cycle_dangling). \<not> resolves g_cycle_dangling s"
    by (simp add: sources_g_cycle_dangling)
  with resolve_order_correct [of g_cycle_dangling]
  obtain s where s: "resolve_order g_cycle_dangling = Inl (UnresolvedReferenceError s)"
    "\<not> resolves g_cycle_dangling s"
    by blast
  from s(1) have "s = NodeOutput ''z''" by (simp add: resolve_g_cycle_dangling)
  with s d1 a1 o order p1 p2 c2 x \<open>x = ''b''\<close> b2 show ?thesis by simp
qed

section \<open>Properties of the MSI build workflow\<close>

subsection \<open>Splitting and joining\<close>


lemma Split_free: "c \<notin> set a \<Longrightarrow> Split c a = [a]"
  by (induction a) auto

lemma Split_append_sep: "c \<notin> set a \<Longrightarrow> Split c (a @ c # rest) = a # Split c rest"
  by (induction a) auto




lemma Split_dotted:
  "ps \<noteq> [] \<Longrightarrow> \<forall>p \<in> set ps. CHR ''.'' \<notin> set p \<Longrightarrow> Split CHR ''.'' (dotted ps) = ps"
proof (induction ps rule: dotted.induct)
  case 1
  then show ?case by simp
next
  case (2 p)
  then show ?case by (simp add: Split_free)
next
  case (3 p q ps)
  then show ?case by (simp add: Split_append_sep)
qed










text \<open>
  The step \<open>get-version\<close> hands on the private version input as it is, so a version
  string with a comma is among those it produces.
\<close>

lemma get_version_private:
  "MSI_PRIVATE_VERSION \<noteq> [] \<Longrightarrow>
   get_version ne [] run_version MSI_PRIVATE_VERSION y md hms = Some MSI_PRIVATE_VERSION"
  by (simp add: get_version_def)



subsection \<open>Publication of the latest version\<close>

lemma version_ge_refl: "version_ge a a"
  by (simp add: version_ge_def)

lemma version_ge_trans: "version_ge a b \<Longrightarrow> version_ge b c \<Longrightarrow> version_ge a c"
  unfolding version_ge_def version_gt_def by auto

lemma check_and_upload_Uploaded:
  "check_and_upload cast version downloaded = Uploaded u \<Longrightarrow>
     u = version \<and> like_1_star version \<and>
     (\<exists>v d. cast version = Some v \<and> cast downloaded = Some d \<and> version_gt v d)"
  by (auto simp: check_and_upload_def split: if_splits option.splits)

lemma download_keeps_latest:
  "latest_version_json (run_step cast version st (DownloadJson r)) = latest_version_json st"
  by simp

lemma check_changes_latest:
  assumes "latest_version_json (run_step cast version st (CheckAndUpload r)) \<noteq> latest_version_json st"
  shows "latest_version_json (run_step cast version st (CheckAndUpload r)) = version r \<and>
         like_1_star (version r) \<and>
         (\<exists>s v d. downloaded_version st r = Some s \<and> cast (version r) = Some v \<and>
                  cast s = Some d \<and> version_gt v d)"
proof (cases "downloaded_version st r")
  case None
  with assms show ?thesis by simp
next
  case (Some s)
  show ?thesis
  proof (cases "check_and_upload cast (version r) s")
    case (Uploaded u)
    from check_and_upload_Uploaded [OF Uploaded] Some Uploaded show ?thesis by auto
  next
    case Skipped
    with Some assms show ?thesis by simp
  next
    case CastFailed
    with Some assms show ?thesis by simp
  qed
qed

lemma one_run_changes_latest:
  assumes "latest_version_json (run_steps cast version st [DownloadJson r, CheckAndUpload r])
             \<noteq> latest_version_json st"
  shows "latest_version_json (run_steps cast version st [DownloadJson r, CheckAndUpload r]) = version r \<and>
         like_1_star (version r) \<and>
         (\<exists>v d. cast (version r) = Some v \<and> cast (latest_version_json st) = Some d \<and>
                version_gt v d)"
proof -
  let ?st1 = "run_step cast version st (DownloadJson r)"
  have l: "latest_version_json ?st1 = latest_version_json st" by simp
  have d: "downloaded_version ?st1 r = Some (latest_version_json st)" by simp
  from assms have "latest_version_json (run_step cast version ?st1 (CheckAndUpload r))
                     \<noteq> latest_version_json ?st1"
    unfolding l by (simp add: run_steps_def)
  from check_changes_latest [OF this] d show ?thesis
    by (auto simp: run_steps_def)
qed

lemma one_run_version_ge:
  assumes "cast (latest_version_json st) = Some d0"
  shows "\<exists>d'. cast (latest_version_json (run_steps cast version st [DownloadJson r, CheckAndUpload r]))
                 = Some d' \<and> version_ge d' d0"
proof (cases "latest_version_json (run_steps cast version st [DownloadJson r, CheckAndUpload r])
                = latest_version_json st")
  case True
  with assms show ?thesis by (simp add: version_ge_refl)
next
  case False
  from one_run_changes_latest [OF False] assms show ?thesis
    by (auto simp: version_ge_def)
qed

lemma run_steps_append:
  "run_steps cast version st (xs @ ys) = run_steps cast version (run_steps cast version st xs) ys"
  by (simp add: run_steps_def)

lemma one_after_another_Cons:
  "one_after_another (r # rs) = [DownloadJson r, CheckAndUpload r] @ one_after_another rs"
  by (simp add: one_after_another_def)

lemma one_after_another_version_ge:
  "cast (latest_version_json st) = Some d0 \<Longrightarrow>
     \<exists>d'. cast (latest_version_json (run_steps cast version st (one_after_another rs))) = Some d'
          \<and> version_ge d' d0"
proof (induction rs arbitrary: st d0)
  case Nil
  then show ?case by (simp add: one_after_another_def run_steps_def version_ge_refl)
next
  case (Cons r rs)
  let ?st1 = "run_steps cast version st [DownloadJson r, CheckAndUpload r]"
  from Cons.prems
  have "\<exists>d'. cast (latest_version_json ?st1) = Some d' \<and> version_ge d' d0"
    by (rule one_run_version_ge)
  then obtain d1 where d1: "cast (latest_version_json ?st1) = Some d1" "version_ge d1 d0" by blast
  from d1(1)
  have "\<exists>d'. cast (latest_version_json (run_steps cast version ?st1 (one_after_another rs)))
               = Some d' \<and> version_ge d' d1"
    by (rule Cons.IH)
  then obtain d2 where d2: "cast (latest_version_json (run_steps cast version ?st1 (one_after_another rs)))
                         = Some d2" "version_ge d2 d1" by blast
  from d2 d1(2) show ?case
    unfolding one_after_another_Cons run_steps_append
    by (blast intro: version_ge_trans)
qed

text \<open>
  Claim C10, as amended. The download step leaves the published version as it is. The
  check step replaces it only by the version of its run, and only when that version
  begins with \<open>1.\<close> and is strictly greater, as a \<open>Version\<close>, than the version the run
  downloaded. When a run downloads and checks with no step of another run in between,
  the version it downloaded is the published one; and over any sequence of runs that
  follow one another in this way the published version never decreases.
\<close>

theorem latest_version_guarded_by_download:
  "latest_version_json (run_step cast version st (DownloadJson r)) = latest_version_json st \<and>
   (latest_version_json (run_step cast version st (CheckAndUpload r)) \<noteq> latest_version_json st \<longrightarrow>
      latest_version_json (run_step cast version st (CheckAndUpload r)) = version r \<and>
      like_1_star (version r) \<and>
      (\<exists>s v d. downloaded_version st r = Some s \<and> cast (version r) = Some v \<and>
               cast s = Some d \<and> version_gt v d)) \<and>
   (latest_version_json (run_steps cast version st [DownloadJson r, CheckAndUpload r])
      \<noteq> latest_version_json st \<longrightarrow>
      latest_version_json (run_steps cast version st [DownloadJson r, CheckAndUpload r]) = version r \<and>
      like_1_star (version r) \<and>
      (\<exists>v d. cast (version r) = Some v \<and> cast (latest_version_json st) = Some d \<and>
             version_gt v d)) \<and>
   (cast (latest_version_json st) = Some d0 \<longrightarrow>
      (\<exists>d'. cast (latest_version_json (run_steps cast version st (one_after_another rs))) = Some d'
            \<and> version_ge d' d0))"
proof (intro conjI impI)
  show "latest_version_json (run_step cast version st (DownloadJson r)) = latest_version_json st"
    by (rule download_keeps_latest)
next
  assume c: "latest_version_json (run_step cast version st (CheckAndUpload r))
               \<noteq> latest_version_json st"
  from check_changes_latest [OF c]
  show "latest_version_json (run_step cast version st (CheckAndUpload r)) = version r"
    and "like_1_star (version r)"
    and "\<exists>s v d. downloaded_version st r = Some s \<and> cast (version r) = Some v \<and>
               cast s = Some d \<and> version_gt v d"
    by simp_all
next
  assume c: "latest_version_json (run_steps cast version st [DownloadJson r, CheckAndUpload r])
               \<noteq> latest_version_json st"
  from one_run_changes_latest [OF c]
  show "latest_version_json (run_steps cast version st [DownloadJson r, CheckAndUpload r])
          = version r"
    and "like_1_star (version r)"
    and "\<exists>v d. cast (version r) = Some v \<and> cast (latest_version_json st) = Some d \<and>
             version_gt v d"
    by simp_all
next
  assume "cast (latest_version_json st) = Some d0"
  then show "\<exists>d'. cast (latest_version_json (run_steps cast version st (one_after_another rs)))
               = Some d' \<and> version_ge d' d0"
    by (rule one_after_another_version_ge)
qed

lemma parse_Version_1_0_0:
  "parse_Version ''1.0.0'' = Some \<lparr>Major = 1, Minor = 0, Build = 0, Revision = -1\<rparr>"
  by (simp add: parse_Version_def parse_component_def parse_Int32_def is_white_def is_digit_def)

lemma parse_Version_1_2_0:
  "parse_Version ''1.2.0'' = Some \<lparr>Major = 1, Minor = 2, Build = 0, Revision = -1\<rparr>"
  by (simp add: parse_Version_def parse_component_def parse_Int32_def is_white_def is_digit_def)

lemma parse_Version_1_5_0:
  "parse_Version ''1.5.0'' = Some \<lparr>Major = 1, Minor = 5, Build = 0, Revision = -1\<rparr>"
  by (simp add: parse_Version_def parse_component_def parse_Int32_def is_white_def is_digit_def)

lemma check_1_5_0_against_1_0_0:
  "check_and_upload parse_Version ''1.5.0'' ''1.0.0'' = Uploaded ''1.5.0''"
  by (simp add: check_and_upload_def like_1_star_def version_gt_def
      parse_Version_1_0_0 parse_Version_1_5_0)

lemma check_1_2_0_against_1_0_0:
  "check_and_upload parse_Version ''1.2.0'' ''1.0.0'' = Uploaded ''1.2.0''"
  by (simp add: check_and_upload_def like_1_star_def version_gt_def
      parse_Version_1_0_0 parse_Version_1_2_0)

lemma check_1_2_0_against_1_5_0:
  "check_and_upload parse_Version ''1.2.0'' ''1.5.0'' = Skipped"
  by (simp add: check_and_upload_def like_1_star_def version_gt_def
      parse_Version_1_5_0 parse_Version_1_2_0)

lemma run_0_alone:
  "latest_version_json
     (run_steps parse_Version two_runs published_1_0_0 [DownloadJson 0, CheckAndUpload 0])
   = ''1.5.0''"
  by (simp add: run_steps_def published_1_0_0_def two_runs_def check_1_5_0_against_1_0_0)

lemma runs_one_after_another:
  "latest_version_json
     (run_steps parse_Version two_runs published_1_0_0 (one_after_another [0, 1]))
   = ''1.5.0''"
  by (simp add: run_steps_def one_after_another_def published_1_0_0_def two_runs_def
      check_1_5_0_against_1_0_0 check_1_2_0_against_1_5_0)

lemma runs_overlapping_first:
  "latest_version_json
     (run_steps parse_Version two_runs published_1_0_0
        [DownloadJson 0, DownloadJson 1, CheckAndUpload 0])
   = ''1.5.0''"
  by (simp add: run_steps_def published_1_0_0_def two_runs_def check_1_5_0_against_1_0_0)

lemma runs_overlapping_second:
  "latest_version_json
     (run_steps parse_Version two_runs published_1_0_0
        [DownloadJson 0, DownloadJson 1, CheckAndUpload 0, CheckAndUpload 1])
   = ''1.2.0''"
  by (simp add: run_steps_def published_1_0_0_def two_runs_def check_1_5_0_against_1_0_0
      check_1_2_0_against_1_0_0)

theorem latest_version_guarded_by_download_witness:
  "latest_version_json
     (run_steps parse_Version two_runs published_1_0_0 [DownloadJson 0, CheckAndUpload 0])
     = two_runs 0 \<and>
   like_1_star (two_runs 0) \<and>
   parse_Version (latest_version_json published_1_0_0)
     = Some \<lparr>Major = 1, Minor = 0, Build = 0, Revision = -1\<rparr> \<and>
   (\<exists>d'. parse_Version (latest_version_json
             (run_steps parse_Version two_runs published_1_0_0 (one_after_another [0, 1])))
           = Some d' \<and>
         version_ge d' \<lparr>Major = 1, Minor = 0, Build = 0, Revision = -1\<rparr>)"
proof -
  have changed: "latest_version_json
       (run_steps parse_Version two_runs published_1_0_0 [DownloadJson 0, CheckAndUpload 0])
     \<noteq> latest_version_json published_1_0_0"
    by (simp add: run_0_alone) (simp add: published_1_0_0_def)
  have parsed: "parse_Version (latest_version_json published_1_0_0)
     = Some \<lparr>Major = 1, Minor = 0, Build = 0, Revision = -1\<rparr>"
    by (simp add: published_1_0_0_def parse_Version_1_0_0)
  note T = latest_version_guarded_by_download [of parse_Version two_runs published_1_0_0 0
      "\<lparr>Major = 1, Minor = 0, Build = 0, Revision = -1\<rparr>" "[0, 1]"]
  from T changed have a: "latest_version_json
       (run_steps parse_Version two_runs published_1_0_0 [DownloadJson 0, CheckAndUpload 0])
     = two_runs 0" "like_1_star (two_runs 0)"
    by (elim conjE, simp only: simp_thms)+
  from T parsed have b: "\<exists>d'. parse_Version (latest_version_json
             (run_steps parse_Version two_runs published_1_0_0 (one_after_another [0, 1])))
           = Some d' \<and>
         version_ge d' \<lparr>Major = 1, Minor = 0, Build = 0, Revision = -1\<rparr>"
    by (elim conjE, simp only: simp_thms)
  from a b parsed show ?thesis by (intro conjI)
qed

text \<open>
  The claim as first stated fails when two runs overlap: both download 1.0.0, run 0
  publishes 1.5.0, and run 1 then publishes 1.2.0, which is not greater than the version
  published at that moment and lowers it.
\<close>

theorem overlapping_runs_lower_latest_version_counterexample:
  "latest_version_json
     (run_steps parse_Version two_runs published_1_0_0
        [DownloadJson 0, DownloadJson 1, CheckAndUpload 0]) = ''1.5.0'' \<and>
   latest_version_json
     (run_steps parse_Version two_runs published_1_0_0
        [DownloadJson 0, DownloadJson 1, CheckAndUpload 0, CheckAndUpload 1]) = ''1.2.0'' \<and>
   parse_Version ''1.5.0'' = Some \<lparr>Major = 1, Minor = 5, Build = 0, Revision = -1\<rparr> \<and>
   parse_Version ''1.2.0'' = Some \<lparr>Major = 1, Minor = 2, Build = 0, Revision = -1\<rparr> \<and>
   version_gt \<lparr>Major = 1, Minor = 5, Build = 0, Revision = -1\<rparr>
              \<lparr>Major = 1, Minor = 2, Build = 0, Revision = -1\<rparr>"
  by (intro conjI runs_overlapping_first runs_overlapping_second parse_Version_1_5_0
      parse_Version_1_2_0) (simp add: version_gt_def)

end
